theory Spec2Isabelle
  imports Main "HOL-Library.Char_ord"
begin

section \<open>The C header generator \<^verbatim>\<open>rust/gen-c-headers.py\<close>\<close>

text \<open>
  The script is a Python 2 program (its first line asks for \<^verbatim>\<open>python2\<close>): the text it
  reads is a byte string, which is what \<^typ>\<open>string\<close> is here. On byte strings the class
  \<^verbatim>\<open>\s\<close> of the module \<^verbatim>\<open>re\<close> and the method \<^verbatim>\<open>strip\<close> agree on what white space is:
  space, tab, line feed, vertical tab, form feed and carriage return.
\<close>

subsection \<open>Characters and the string methods the script calls\<close>

definition nl :: char where
  "nl = CHR 0x0A"

definition is_space :: "char \<Rightarrow> bool" where
  "is_space c = (c = CHR '' '' \<or> c = CHR 0x09 \<or> c = CHR 0x0A \<or> c = CHR 0x0B
                 \<or> c = CHR 0x0C \<or> c = CHR 0x0D)"

definition not_space :: "char \<Rightarrow> bool" where
  "not_space c = (\<not> is_space c)"

text \<open>\<^verbatim>\<open>s.strip()\<close>: white space removed at both ends.\<close>

definition strip :: "string \<Rightarrow> string" where
  "strip s = rev (dropWhile is_space (rev (dropWhile is_space s)))"

text \<open>\<^verbatim>\<open>s.split(d)\<close> for a one-character separator: every occurrence splits, and the
  empty string gives one empty piece.\<close>

fun split_on :: "char \<Rightarrow> string \<Rightarrow> string list" where
  "split_on d [] = [[]]"
| "split_on d (c # cs) =
     (if c = d then [] # split_on d cs
      else (case split_on d cs of
              [] \<Rightarrow> [[c]]
            | p # ps \<Rightarrow> (c # p) # ps))"

text \<open>\<^verbatim>\<open>s.split(":", 1)\<close>: at most one split, at the first colon. The script unpacks
  the result into two names, which needs the colon to be there; \<open>None\<close> is the list
  of one element on which the unpacking raises.\<close>

definition split_first :: "char \<Rightarrow> string \<Rightarrow> (string \<times> string) option" where
  "split_first d s =
     (case dropWhile (\<lambda>c. c \<noteq> d) s of
        [] \<Rightarrow> None
      | _ # after \<Rightarrow> Some (takeWhile (\<lambda>c. c \<noteq> d) s, after))"

text \<open>\<^verbatim>\<open>sep.join(xs)\<close>.\<close>

fun join :: "string \<Rightarrow> string list \<Rightarrow> string" where
  "join sep [] = []"
| "join sep [x] = x"
| "join sep (x # y # ys) = x @ sep @ join sep (y # ys)"

subsection \<open>Errors\<close>

text \<open>
  The three exceptions of \<^verbatim>\<open>convert_type\<close> differ by their message only; each is a
  constructor, with the values the message prints. \<open>ValueError\<close> is what unpacking
  \<^verbatim>\<open>arg.split(":", 1)\<close> raises on a parameter without a colon, and
  \<open>UnicodeDecodeError\<close> what Python 2 raises when a byte above 127 is formatted
  into the unicode line written to the \<^verbatim>\<open>StringIO\<close>.
\<close>

datatype error =
    UnknownModifier string string
  | UnknownType string
  | FailedToParse string
  | ValueError
  | UnicodeDecodeError

subsection \<open>The map of Rust types to C types\<close>

definition type_table :: "(string \<times> string) list" where
  "type_table =
    [(''bool'', ''bool''),
     (''i8'', ''int8_t''),
     (''i16'', ''int16_t''),
     (''i32'', ''int32_t''),
     (''i64'', ''int64_t''),
     (''u8'', ''uint8_t''),
     (''u16'', ''uint16_t''),
     (''u32'', ''uint32_t''),
     (''u64'', ''uint64_t''),
     (''libc::c_void'', ''void''),
     (''libc::c_char'', ''char''),
     (''libc::c_int'', ''int''),
     (''c_int'', ''int''),
     (''libc::int8_t'', ''int8_t''),
     (''libc::uint8_t'', ''uint8_t''),
     (''libc::uint16_t'', ''uint16_t''),
     (''libc::uint32_t'', ''uint32_t''),
     (''libc::uint64_t'', ''uint64_t''),
     (''SuricataContext'', ''SuricataContext''),
     (''SuricataFileContext'', ''SuricataFileContext''),
     (''FileContainer'', ''FileContainer''),
     (''core::Flow'', ''Flow''),
     (''Flow'', ''Flow''),
     (''DNSState'', ''RSDNSState''),
     (''DNSTransaction'', ''RSDNSTransaction''),
     (''NFSState'', ''NFSState''),
     (''NFSTransaction'', ''NFSTransaction''),
     (''NTPState'', ''NTPState''),
     (''NTPTransaction'', ''NTPTransaction''),
     (''TFTPTransaction'', ''TFTPTransaction''),
     (''TFTPState'', ''TFTPState''),
     (''JsonT'', ''json_t''),
     (''DetectEngineState'', ''DetectEngineState''),
     (''core::DetectEngineState'', ''DetectEngineState''),
     (''core::AppLayerDecoderEvents'', ''AppLayerDecoderEvents''),
     (''AppLayerDecoderEvents'', ''AppLayerDecoderEvents''),
     (''core::AppLayerEventType'', ''AppLayerEventType''),
     (''AppLayerEventType'', ''AppLayerEventType''),
     (''CLuaState'', ''lua_State''),
     (''Store'', ''Store''),
     (''AppProto'', ''AppProto'')]"

definition type_map :: "string \<rightharpoonup> string" where
  "type_map = map_of type_table"

text \<open>The three lists of modifier spellings that \<^verbatim>\<open>convert_type\<close> tests with \<^verbatim>\<open>in\<close>.\<close>

definition mut_mods :: "string list" where
  "mut_mods = [''*mut'', ''* mut'', ''&mut'', ''&'static mut'']"

definition const_mods :: "string list" where
  "const_mods = [''*const'', ''* const'']"

definition mut_const_mods :: "string list" where
  "mut_const_mods = [''*mut *const'', ''*mut*const'']"

subsection \<open>Regular expressions, as the backtracking matcher runs them\<close>

text \<open>
  A greedy repetition of a one-character class takes as many characters as it can
  and gives them back one at a time while what follows it in the pattern (the
  continuation \<open>k\<close>, which gets the text matched and the text left) fails.
  \<open>greedy0\<close> is \<^verbatim>\<open>X*\<close>, \<open>greedy1\<close> is \<^verbatim>\<open>X+\<close>.
\<close>

fun greedy0 :: "(char \<Rightarrow> bool) \<Rightarrow> string \<Rightarrow> string \<Rightarrow> (string \<Rightarrow> string \<Rightarrow> 'a option) \<Rightarrow> 'a option" where
  "greedy0 P acc [] k = k acc []"
| "greedy0 P acc (c # cs) k =
     (if P c then
        (case greedy0 P (acc @ [c]) cs k of
           Some r \<Rightarrow> Some r
         | None \<Rightarrow> k acc (c # cs))
      else k acc (c # cs))"

definition greedy1 :: "(char \<Rightarrow> bool) \<Rightarrow> string \<Rightarrow> (string \<Rightarrow> string \<Rightarrow> 'a option) \<Rightarrow> 'a option" where
  "greedy1 P s k =
     (case s of
        [] \<Rightarrow> None
      | c # cs \<Rightarrow> if P c then greedy0 P [c] cs k else None)"

text \<open>A literal: the text left after it, when the text starts with it.\<close>

fun literal :: "string \<Rightarrow> string \<Rightarrow> string option" where
  "literal [] s = Some s"
| "literal (p # ps) [] = None"
| "literal (p # ps) (c # cs) = (if p = c then literal ps cs else None)"

text \<open>\<^verbatim>\<open>$\<close> without the flag \<^verbatim>\<open>re.M\<close>: at the end of the text, or before a line feed
  that ends the text.\<close>

definition at_end :: "string \<Rightarrow> bool" where
  "at_end rest = (rest = [] \<or> rest = [nl])"

subsection \<open>\<^verbatim>\<open>convert_type\<close>\<close>

text \<open>\<^verbatim>\<open>re.match("^[^\s]+$", rs_type)\<close>.\<close>

definition match_bare :: "string \<Rightarrow> bool" where
  "match_bare rs_type =
     (greedy1 not_space rs_type (\<lambda>x rest. if at_end rest then Some x else None) \<noteq> None)"

text \<open>\<^verbatim>\<open>re.match("^(.*)(\s[^\s]+)$", rs_type)\<close>, with its two groups: without the flag
  \<^verbatim>\<open>re.DOTALL\<close> the dot matches every character but the line feed.\<close>

definition match_mod :: "string \<Rightarrow> (string \<times> string) option" where
  "match_mod rs_type =
     greedy0 (\<lambda>c. c \<noteq> nl) [] rs_type
       (\<lambda>g1 r. case r of
                  [] \<Rightarrow> None
                | w # r' \<Rightarrow>
                    if is_space w
                    then greedy1 not_space r'
                           (\<lambda>b rest. if at_end rest then Some (g1, w # b) else None)
                    else None)"

definition convert_type :: "string \<Rightarrow> error + string" where
  "convert_type rs_type =
     (case (if match_bare rs_type then type_map rs_type else None) of
        Some c \<Rightarrow> Inr c
      | None \<Rightarrow>
          (case match_mod rs_type of
             Some (g1, g2) \<Rightarrow>
               (let modif = strip g1; rtype = strip g2 in
                case type_map rtype of
                  Some c \<Rightarrow>
                    if modif \<in> set mut_mods then Inr (c @ '' *'')
                    else if modif \<in> set const_mods then Inr (''const '' @ c @ '' *'')
                    else if modif \<in> set mut_const_mods then Inr (c @ '' **'')
                    else Inl (UnknownModifier modif rs_type)
                | None \<Rightarrow> Inl (UnknownType rtype))
           | None \<Rightarrow> Inl (FailedToParse rs_type)))"

subsection \<open>The declarations \<^verbatim>\<open>gen_headers\<close> looks for\<close>

text \<open>
  The pattern, searched with the flags \<^verbatim>\<open>re.M | re.DOTALL\<close>:
  \<^verbatim>\<open>^pub (unsafe )?extern "C" fn ([A_Za-z0-9_]+)\(([^{]+)?\)(\s+-> ([^{]+))?\<close>
  A match is the tuple of its five groups, \<^verbatim>\<open>fn[0]\<close> to \<^verbatim>\<open>fn[4]\<close>; a group that took
  no part in the match is the empty string.
\<close>

record fn_match =
  fn_unsafe :: string
  fn_name :: string
  fn_args :: string
  fn_arrow :: string
  fn_ret :: string

text \<open>The class \<^verbatim>\<open>[A_Za-z0-9_]\<close>, item by item: the letter A, the underscore, the letter Z,
  the range a-z, the range 0-9 and the underscore again.\<close>

definition name_char :: "char \<Rightarrow> bool" where
  "name_char c = (c = CHR ''A'' \<or> c = CHR ''_'' \<or> c = CHR ''Z''
                  \<or> (CHR ''a'' \<le> c \<and> c \<le> CHR ''z'')
                  \<or> (CHR ''0'' \<le> c \<and> c \<le> CHR ''9'')
                  \<or> c = CHR ''_'')"

text \<open>The class \<^verbatim>\<open>[^{]\<close>; a negated class matches the line feed with or without
  \<^verbatim>\<open>re.DOTALL\<close>.\<close>

definition not_brace :: "char \<Rightarrow> bool" where
  "not_brace c = (c \<noteq> CHR ''{'')"

text \<open>\<^verbatim>\<open>\s+-> ([^{]+)\<close>: the text of group 4, the text of group 5 and the text left.\<close>

definition ret_group :: "string \<Rightarrow> (string \<times> string \<times> string) option" where
  "ret_group t =
     greedy1 is_space t
       (\<lambda>ws t1. case literal ''-> '' t1 of
                   None \<Rightarrow> None
                 | Some t2 \<Rightarrow> greedy1 not_brace t2 (\<lambda>r t3. Some (ws @ ''-> '' @ r, r, t3)))"

text \<open>\<^verbatim>\<open>\)(\s+-> ([^{]+))?\<close>, once groups 1 to 3 are known. The optional group is
  tried first; nothing follows it, so the match ends where it ends.\<close>

definition after_args :: "string \<Rightarrow> string \<Rightarrow> string \<Rightarrow> string \<Rightarrow> (fn_match \<times> string) option" where
  "after_args u n a t =
     (case literal '')'' t of
        None \<Rightarrow> None
      | Some t1 \<Rightarrow>
          (case ret_group t1 of
             Some (g4, g5, rest) \<Rightarrow>
               Some (\<lparr>fn_unsafe = u, fn_name = n, fn_args = a, fn_arrow = g4, fn_ret = g5\<rparr>, rest)
           | None \<Rightarrow>
               Some (\<lparr>fn_unsafe = u, fn_name = n, fn_args = a, fn_arrow = [], fn_ret = []\<rparr>, t1)))"

text \<open>\<^verbatim>\<open>\(([^{]+)?\)\<close> and what follows: the optional group is tried first, from its
  longest text down, and skipped when no length of it lets the rest match.\<close>

definition after_name :: "string \<Rightarrow> string \<Rightarrow> string \<Rightarrow> (fn_match \<times> string) option" where
  "after_name u n t =
     (case literal ''('' t of
        None \<Rightarrow> None
      | Some t1 \<Rightarrow>
          (case greedy1 not_brace t1 (\<lambda>a t2. after_args u n a t2) of
             Some r \<Rightarrow> Some r
           | None \<Rightarrow> after_args u n [] t1))"

text \<open>\<^verbatim>\<open>extern "C" fn ([A_Za-z0-9_]+)\<close> and what follows.\<close>

definition after_pub :: "string \<Rightarrow> string \<Rightarrow> (fn_match \<times> string) option" where
  "after_pub u t =
     (case literal ''extern \"C\" fn '' t of
        None \<Rightarrow> None
      | Some t1 \<Rightarrow> greedy1 name_char t1 (\<lambda>n t2. after_name u n t2))"

text \<open>The whole pattern at one place of the text (\<^verbatim>\<open>^\<close> is the caller's business):
  the groups and the text left after the match.\<close>

definition match_decl :: "string \<Rightarrow> (fn_match \<times> string) option" where
  "match_decl s =
     (case literal ''pub '' s of
        None \<Rightarrow> None
      | Some t \<Rightarrow>
          (case (case literal ''unsafe '' t of
                   None \<Rightarrow> None
                 | Some t1 \<Rightarrow> after_pub ''unsafe '' t1) of
             Some r \<Rightarrow> Some r
           | None \<Rightarrow> after_pub [] t))"

subsection \<open>What a match consumes\<close>

lemma literal_SomeD:
  "literal p s = Some t \<Longrightarrow> s = p @ t"
  by (induction p s rule: literal.induct) (auto split: if_splits)

lemma greedy0_SomeD:
  "greedy0 P acc s k = Some r \<Longrightarrow> \<exists>u v. s = u @ v \<and> (\<forall>c\<in>set u. P c) \<and> k (acc @ u) v = Some r"
proof (induction s arbitrary: acc)
  case Nil
  then show ?case by simp
next
  case (Cons c cs)
  show ?case
  proof (cases "P c \<and> greedy0 P (acc @ [c]) cs k = Some r")
    case True
    with Cons.IH [of "acc @ [c]"] obtain u v
      where "cs = u @ v" "\<forall>c\<in>set u. P c" "k (acc @ c # u) v = Some r"
      by auto
    with True have "c # cs = (c # u) @ v \<and> (\<forall>x\<in>set (c # u). P x) \<and> k (acc @ c # u) v = Some r"
      by simp
    then show ?thesis by blast
  next
    case False
    with Cons.prems have "k (acc @ []) (c # cs) = Some r"
      by (auto split: if_splits option.splits)
    then show ?thesis by (intro exI [of _ "[]"] exI [of _ "c # cs"]) simp
  qed
qed

lemma greedy1_SomeD:
  assumes "greedy1 P s k = Some r"
  shows "\<exists>u v. s = u @ v \<and> u \<noteq> [] \<and> (\<forall>c\<in>set u. P c) \<and> k u v = Some r"
proof -
  from assms obtain c cs where s: "s = c # cs" and c: "P c" and g: "greedy0 P [c] cs k = Some r"
    by (auto simp: greedy1_def split: list.splits if_splits)
  from greedy0_SomeD [OF g] obtain u v
    where "cs = u @ v" "\<forall>c\<in>set u. P c" "k (c # u) v = Some r"
    by auto
  with s c have "s = (c # u) @ v \<and> c # u \<noteq> [] \<and> (\<forall>x\<in>set (c # u). P x) \<and> k (c # u) v = Some r"
    by simp
  then show ?thesis by blast
qed

lemma ret_group_rest:
  assumes "ret_group t = Some (g4, g5, rest)"
  shows "\<exists>u. t = u @ rest"
proof -
  from greedy1_SomeD [OF assms [unfolded ret_group_def]] obtain ws t1 t2
    where t: "t = ws @ t1" and l: "literal ''-> '' t1 = Some t2"
      and g: "greedy1 not_brace t2 (\<lambda>r t3. Some (ws @ ''-> '' @ r, r, t3)) = Some (g4, g5, rest)"
    by (auto split: option.splits)
  from greedy1_SomeD [OF g] obtain r where "t2 = r @ rest" by auto
  with t literal_SomeD [OF l] have "t = (ws @ ''-> '' @ r) @ rest" by simp
  then show ?thesis ..
qed

lemma after_args_rest:
  assumes "after_args u n a t = Some (m, rest)"
  shows "\<exists>x. t = x @ rest"
proof -
  from assms obtain t1 where l: "literal '')'' t = Some t1"
    by (auto simp: after_args_def split: option.splits)
  have "\<exists>y. t1 = y @ rest"
  proof (cases "ret_group t1")
    case None
    with assms l have "rest = t1" by (simp add: after_args_def)
    then show ?thesis by simp
  next
    case (Some g)
    obtain g4 g5 rest' where g: "g = (g4, g5, rest')" by (cases g)
    with Some assms l have "rest' = rest" by (simp add: after_args_def)
    with Some g ret_group_rest show ?thesis by blast
  qed
  then obtain y where "t1 = y @ rest" ..
  with literal_SomeD [OF l] have "t = ('')'' @ y) @ rest" by simp
  then show ?thesis ..
qed

lemma after_name_rest:
  assumes "after_name u n t = Some (m, rest)"
  shows "\<exists>x. t = x @ rest"
proof -
  from assms obtain t1 where l: "literal ''('' t = Some t1"
    by (auto simp: after_name_def split: option.splits)
  have "\<exists>y. t1 = y @ rest"
  proof (cases "greedy1 not_brace t1 (\<lambda>a t2. after_args u n a t2)")
    case None
    with assms l have "after_args u n [] t1 = Some (m, rest)" by (simp add: after_name_def)
    then show ?thesis by (rule after_args_rest)
  next
    case (Some r)
    with assms l have "greedy1 not_brace t1 (\<lambda>a t2. after_args u n a t2) = Some (m, rest)"
      by (simp add: after_name_def)
    from greedy1_SomeD [OF this] obtain a t2 where "t1 = a @ t2" "after_args u n a t2 = Some (m, rest)"
      by auto
    with after_args_rest [of u n a t2 m rest] obtain x where "t1 = (a @ x) @ rest" by auto
    then show ?thesis ..
  qed
  then obtain y where "t1 = y @ rest" ..
  with literal_SomeD [OF l] have "t = (''('' @ y) @ rest" by simp
  then show ?thesis ..
qed

lemma after_pub_rest:
  assumes "after_pub u t = Some (m, rest)"
  shows "\<exists>x. t = x @ rest"
proof -
  from assms obtain t1
    where l: "literal ''extern \"C\" fn '' t = Some t1"
      and g: "greedy1 name_char t1 (\<lambda>n t2. after_name u n t2) = Some (m, rest)"
    by (auto simp: after_pub_def split: option.splits)
  from greedy1_SomeD [OF g] obtain n t2 where "t1 = n @ t2" "after_name u n t2 = Some (m, rest)"
    by auto
  with after_name_rest [of u n t2 m rest] obtain x where "t1 = (n @ x) @ rest" by auto
  with literal_SomeD [OF l]
  have "t = (''extern \"C\" fn '' @ n @ x) @ rest" by simp
  then show ?thesis ..
qed

lemma match_decl_rest:
  assumes "match_decl s = Some (m, rest)"
  shows "\<exists>x. s = ''pub '' @ x @ rest"
proof -
  from assms obtain t where l: "literal ''pub '' s = Some t"
    by (auto simp: match_decl_def split: option.splits)
  have "\<exists>y. t = y @ rest"
  proof (cases "case literal ''unsafe '' t of None \<Rightarrow> None | Some t1 \<Rightarrow> after_pub ''unsafe '' t1")
    case None
    with assms l have "after_pub [] t = Some (m, rest)" by (simp add: match_decl_def)
    then show ?thesis by (rule after_pub_rest)
  next
    case (Some r)
    with assms l have r: "r = (m, rest)" by (simp add: match_decl_def)
    from Some obtain t1 where l1: "literal ''unsafe '' t = Some t1"
      and "after_pub ''unsafe '' t1 = Some r"
      by (auto split: option.splits)
    with r after_pub_rest [of "''unsafe ''" t1 m rest] obtain x where "t1 = x @ rest" by auto
    with literal_SomeD [OF l1] have "t = (''unsafe '' @ x) @ rest" by simp
    then show ?thesis ..
  qed
  then obtain y where "t = y @ rest" ..
  with literal_SomeD [OF l] show ?thesis by auto
qed

lemma match_decl_shorter:
  "match_decl s = Some (m, rest) \<Longrightarrow> length rest < length s"
  by (drule match_decl_rest) auto

subsection \<open>\<^verbatim>\<open>re.findall\<close>\<close>

text \<open>
  The scan of \<^verbatim>\<open>re.finditer\<close>, of which \<^verbatim>\<open>re.findall\<close> returns the groups: from left
  to right, a match is tried at every place where \<^verbatim>\<open>^\<close> holds under \<^verbatim>\<open>re.M\<close> (the
  start of the text, or after a line feed: \<open>bol\<close>), and the scan goes on where a
  match ended. \<open>pos\<close> is the offset of the text left in the whole text.
\<close>

function finditer_from :: "nat \<Rightarrow> bool \<Rightarrow> string \<Rightarrow> (nat \<times> fn_match) list" where
  "finditer_from pos bol [] = []"
| "finditer_from pos bol (c # cs) =
     (case (if bol then match_decl (c # cs) else None) of
        Some (m, rest) \<Rightarrow>
          (let n = length (c # cs) - length rest in
           (pos, m) # finditer_from (pos + n) (last (take n (c # cs)) = nl) rest)
      | None \<Rightarrow> finditer_from (Suc pos) (c = nl) cs)"
  by pat_completeness auto
termination
  by (relation "measure (\<lambda>(pos, bol, s). length s)")
     (auto split: if_splits dest: match_decl_shorter)

definition finditer :: "string \<Rightarrow> (nat \<times> fn_match) list" where
  "finditer buf = finditer_from 0 True buf"

definition findall :: "string \<Rightarrow> fn_match list" where
  "findall buf = map snd (finditer buf)"

text \<open>Where \<^verbatim>\<open>^\<close> holds in \<open>buf\<close> under \<^verbatim>\<open>re.M\<close>.\<close>

definition line_start :: "string \<Rightarrow> nat \<Rightarrow> bool" where
  "line_start buf i = (i = 0 \<or> buf ! (i - 1) = nl)"

subsection \<open>The loop of \<^verbatim>\<open>gen_headers\<close>\<close>

text \<open>
  The inner loop, over the pieces of \<^verbatim>\<open>fn[2].split(",")\<close>, with the list \<^verbatim>\<open>args\<close> it
  appends to. An empty piece is skipped; any other piece is unpacked at its first
  colon, which raises when there is none.
\<close>

fun args_loop :: "string list \<Rightarrow> string list \<Rightarrow> error + string list" where
  "args_loop args [] = Inr args"
| "args_loop args (arg # rest) =
     (if arg = [] then args_loop args rest
      else
        (case split_first CHR '':'' arg of
           None \<Rightarrow> Inl ValueError
         | Some (arg_name, rs_type) \<Rightarrow>
             (case convert_type (strip rs_type) of
                Inl e \<Rightarrow> Inl e
              | Inr c_type \<Rightarrow>
                  if strip arg_name \<noteq> ''_''
                  then args_loop (args @ [c_type @ '' '' @ strip arg_name]) rest
                  else args_loop (args @ [c_type]) rest)))"

definition is_ascii :: "char \<Rightarrow> bool" where
  "is_ascii c = (c \<le> CHR 0x7F)"

text \<open>
  One turn of the outer loop: the text written for the match \<open>fn\<close>. The line is a
  unicode string formatted from byte strings, which Python 2 decodes as ASCII.
\<close>

definition prototype :: "fn_match \<Rightarrow> error + string" where
  "prototype fn =
     (case args_loop [] (split_on CHR '','' (fn_args fn)) of
        Inl e \<Rightarrow> Inl e
      | Inr args0 \<Rightarrow>
          (let args = (if args0 = [] then [''void''] else args0);
               retType = strip (fn_ret fn)
           in case (if retType = [] then Inr ''void'' else convert_type retType) of
                Inl e \<Rightarrow> Inl e
              | Inr returns \<Rightarrow>
                  if list_all is_ascii (returns @ fn_name fn @ join '', '' args)
                  then Inr (returns @ '' '' @ fn_name fn @ ''('' @ join '', '' args @ '');'' @ [nl])
                  else Inl UnicodeDecodeError))"

text \<open>The outer loop, with what has been written so far; an exception leaves it.\<close>

fun write_loop :: "string list \<Rightarrow> fn_match list \<Rightarrow> error + string list" where
  "write_loop written [] = Inr written"
| "write_loop written (fn # fns) =
     (case prototype fn of
        Inl e \<Rightarrow> Inl e
      | Inr line \<Rightarrow> write_loop (written @ [line]) fns)"

text \<open>The texts written for the text \<open>buf\<close> of a file, in the order of the writes, and
  \<^verbatim>\<open>writer.getvalue()\<close>, which the template wraps.\<close>

definition gen_headers_lines :: "string \<Rightarrow> error + string list" where
  "gen_headers_lines buf = write_loop [] (findall buf)"

definition gen_headers :: "string \<Rightarrow> error + string" where
  "gen_headers buf =
     (case gen_headers_lines buf of
        Inl e \<Rightarrow> Inl e
      | Inr written \<Rightarrow> Inr (concat written))"

subsection \<open>Descriptors\<close>

text \<open>
  What the loop knows of a function before it translates a type: the name
  \<^verbatim>\<open>fn[1]\<close>, the pairs \<^verbatim>\<open>(arg_name, rs_type)\<close> of the pieces, both stripped, and
  \<^verbatim>\<open>fn[4].strip()\<close> when it is not empty. \<open>params_loop\<close> is \<open>args_loop\<close> with the
  translation and the formatting left out. The script builds no such value, since it
  translates each type as soon as it has unpacked a piece: the record only names the
  parameters of a match, for the statement about the placeholder name.
\<close>

record FunctionDescriptor =
  fd_name :: string
  fd_parameters :: "(string \<times> string) list"
  fd_return_type :: "string option"

fun params_loop :: "(string \<times> string) list \<Rightarrow> string list \<Rightarrow> error + (string \<times> string) list" where
  "params_loop params [] = Inr params"
| "params_loop params (arg # rest) =
     (if arg = [] then params_loop params rest
      else
        (case split_first CHR '':'' arg of
           None \<Rightarrow> Inl ValueError
         | Some (arg_name, rs_type) \<Rightarrow>
             params_loop (params @ [(strip arg_name, strip rs_type)]) rest))"

definition descriptor_of :: "fn_match \<Rightarrow> error + FunctionDescriptor" where
  "descriptor_of fn =
     (case params_loop [] (split_on CHR '','' (fn_args fn)) of
        Inl e \<Rightarrow> Inl e
      | Inr params \<Rightarrow>
          Inr \<lparr>fd_name = fn_name fn, fd_parameters = params,
               fd_return_type = (if strip (fn_ret fn) = [] then None else Some (strip (fn_ret fn)))\<rparr>)"

text \<open>The rendering of one parameter of a descriptor: what \<open>args_loop\<close> appends for it.\<close>

definition render_param :: "string \<times> string \<Rightarrow> error + string" where
  "render_param p =
     (case convert_type (snd p) of
        Inl e \<Rightarrow> Inl e
      | Inr c_type \<Rightarrow> Inr (if fst p \<noteq> ''_'' then c_type @ '' '' @ fst p else c_type))"

subsection \<open>Four source texts\<close>

text \<open>Two functions of which one is \<^verbatim>\<open>unsafe\<close>; a parameter without a colon; a parameter
  list over several lines, with a comma after the last parameter; no exported function.\<close>

definition two_functions :: string where
  "two_functions =
     ''pub extern \"C\" fn rs_a() {}'' @ [nl] @
     ''pub unsafe extern \"C\" fn rs_b(_: u8, st: &mut DNSState) -> *const u8 {}'' @ [nl]"

definition no_colon :: string where
  "no_colon = ''pub extern \"C\" fn f(x) {}''"

definition trailing_comma :: string where
  "trailing_comma = ''pub extern \"C\" fn f('' @ [nl] @ ''    x: u8,'' @ [nl] @ '') {}''"

definition no_function :: string where
  "no_function = ''fn g()'' @ [nl] @ ''pub fn h()''"

section \<open>The translation of types\<close>

subsection \<open>How a greedy repetition ends\<close>

lemma greedy0_None:
  "(\<And>u v. s = u @ v \<Longrightarrow> \<forall>c\<in>set u. P c \<Longrightarrow> k (acc @ u) v = None) \<Longrightarrow> greedy0 P acc s k = None"
proof (induction s arbitrary: acc)
  case Nil
  then show ?case by simp
next
  case (Cons c cs)
  have here: "k acc (c # cs) = None"
    using Cons.prems [of "[]" "c # cs"] by simp
  show ?case
  proof (cases "P c")
    case False
    with here show ?thesis by simp
  next
    case True
    have "greedy0 P (acc @ [c]) cs k = None"
    proof (rule Cons.IH)
      fix u v assume "cs = u @ v" and "\<forall>c\<in>set u. P c"
      then show "k ((acc @ [c]) @ u) v = None"
        using Cons.prems [of "c # u" v] True by simp
    qed
    with here show ?thesis by simp
  qed
qed

lemma greedy0_Some:
  assumes "\<forall>c\<in>set u. P c" and "k (acc @ u) v = Some r"
    and "\<And>u' v'. u @ v = u' @ v' \<Longrightarrow> length u < length u' \<Longrightarrow> \<forall>c\<in>set u'. P c \<Longrightarrow> k (acc @ u') v' = None"
  shows "greedy0 P acc (u @ v) k = Some r"
  using assms
proof (induction u arbitrary: acc)
  case Nil
  show ?case
  proof (cases v)
    case Nil
    with Nil.prems show ?thesis by simp
  next
    case (Cons c cs)
    show ?thesis
    proof (cases "P c")
      case False
      with Cons Nil.prems(2) show ?thesis by simp
    next
      case True
      have "greedy0 P (acc @ [c]) cs k = None"
      proof (rule greedy0_None)
        fix u' v' assume "cs = u' @ v'" and "\<forall>c\<in>set u'. P c"
        then show "k ((acc @ [c]) @ u') v' = None"
          using Nil.prems(3) [of "c # u'" v'] Cons True by simp
      qed
      with Cons Nil.prems(2) show ?thesis by simp
    qed
  qed
next
  case (Cons a u)
  have "greedy0 P (acc @ [a]) (u @ v) k = Some r"
  proof (rule Cons.IH)
    show "\<forall>c\<in>set u. P c" using Cons.prems(1) by simp
    show "k ((acc @ [a]) @ u) v = Some r" using Cons.prems(2) by simp
  next
    fix u' v' assume "u @ v = u' @ v'" and "length u < length u'" and "\<forall>c\<in>set u'. P c"
    then show "k ((acc @ [a]) @ u') v' = None"
      using Cons.prems(3) [of "a # u'" v'] Cons.prems(1) by simp
  qed
  then show ?case using Cons.prems(1) by simp
qed

lemma greedy1_all:
  assumes "s \<noteq> []" and "\<forall>c\<in>set s. P c" and "k s [] = Some r"
  shows "greedy1 P s k = Some r"
proof -
  from assms(1) obtain c cs where s: "s = c # cs" by (cases s) auto
  have "greedy0 P [c] (cs @ []) k = Some r"
    by (rule greedy0_Some) (use assms s in auto)
  with s assms(2) show ?thesis by (simp add: greedy1_def)
qed

subsection \<open>The two patterns of \<^verbatim>\<open>convert_type\<close>\<close>

lemma match_bare_token:
  "rs \<noteq> [] \<Longrightarrow> \<forall>c\<in>set rs. \<not> is_space c \<Longrightarrow> match_bare rs"
  unfolding match_bare_def
  by (subst greedy1_all [where r = rs]) (auto simp: not_space_def at_end_def)

lemma match_mod_no_space:
  assumes "\<forall>c\<in>set rs. \<not> is_space c"
  shows "match_mod rs = None"
  unfolding match_mod_def
proof (rule greedy0_None)
  fix u v assume "rs = u @ v"
  with assms show "(case v of [] \<Rightarrow> None
      | w # r' \<Rightarrow> if is_space w
          then greedy1 not_space r' (\<lambda>b rest. if at_end rest then Some ([] @ u, w # b) else None)
          else None) = None"
    by (cases v) auto
qed

lemma match_mod_split:
  assumes "nl \<notin> set p" and "is_space w" and "b \<noteq> []" and "\<forall>c\<in>set b. \<not> is_space c"
  shows "match_mod (p @ w # b) = Some (p, w # b)"
  unfolding match_mod_def
proof (rule greedy0_Some)
  show "\<forall>c\<in>set p. c \<noteq> nl" using assms(1) by auto
  have "greedy1 not_space b (\<lambda>b rest. if at_end rest then Some (p, w # b) else None) = Some (p, w # b)"
    by (rule greedy1_all) (use assms in \<open>auto simp: not_space_def at_end_def\<close>)
  then show "(case w # b of [] \<Rightarrow> None
      | w # r' \<Rightarrow> if is_space w
          then greedy1 not_space r' (\<lambda>b rest. if at_end rest then Some ([] @ p, w # b) else None)
          else None) = Some (p, w # b)"
    using assms(2) by (simp cong: if_cong)
next
  fix u' v' assume eq: "p @ w # b = u' @ v'" and len: "length p < length u'"
  from eq len obtain t where "u' = p @ t" and "t \<noteq> []" and "w # b = t @ v'"
    by (auto simp: append_eq_append_conv2)
  then have "set v' \<subseteq> set b" by (cases t) auto
  with assms(4) have "v' = [] \<or> \<not> is_space (hd v')" by (cases v') auto
  then show "(case v' of [] \<Rightarrow> None
      | w # r' \<Rightarrow> if is_space w
          then greedy1 not_space r' (\<lambda>b rest. if at_end rest then Some ([] @ u', w # b) else None)
          else None) = None"
    by (cases v') auto
qed

lemma strip_base:
  assumes "is_space w" and "b \<noteq> []" and "\<forall>c\<in>set b. \<not> is_space c"
  shows "strip (w # b) = b"
proof -
  from assms(2,3) have "\<not> is_space (hd b)" and "\<not> is_space (hd (rev b))" and "rev b \<noteq> []"
    by (auto simp: hd_rev)
  then have "dropWhile is_space b = b" and "dropWhile is_space (rev b) = rev b"
    by (metis dropWhile_eq_self_iff)+
  with assms(1) show ?thesis by (simp add: strip_def)
qed

lemma type_table_keys:
  "\<forall>k\<in>set (map fst type_table). k \<noteq> [] \<and> (\<forall>c\<in>set k. \<not> is_space c)"
  by (simp add: type_table_def is_space_def)

text \<open>No key is written twice in the dictionary: the first pair of a key in
  \<open>type_table\<close> is its only pair.\<close>

lemma type_table_distinct:
  "distinct (map fst type_table)"
  by (simp add: type_table_def)

lemma type_map_key:
  assumes "type_map b = Some v"
  shows "b \<noteq> []" and "\<forall>c\<in>set b. \<not> is_space c"
proof -
  from assms have "b \<in> set (map fst type_table)"
    unfolding type_map_def by (force dest: map_of_SomeD)
  with type_table_keys show "b \<noteq> []" and "\<forall>c\<in>set b. \<not> is_space c" by blast+
qed

lemma type_map_space:
  "is_space w \<Longrightarrow> type_map (p @ w # b) = None"
  using type_map_key(2) [of "p @ w # b"] by (cases "type_map (p @ w # b)") auto

text \<open>
  A type expression on one line that ends with a token: the text \<open>p\<close> before the last
  white-space character \<open>w\<close> is the modifier, once stripped, and the token \<open>b\<close> the base
  type, which is looked up first.
\<close>

lemma convert_type_split:
  assumes "nl \<notin> set p" and "is_space w" and "b \<noteq> []" and "\<forall>c\<in>set b. \<not> is_space c"
  shows "convert_type (p @ w # b) =
     (case type_map b of
        Some c \<Rightarrow>
          if strip p \<in> set mut_mods then Inr (c @ '' *'')
          else if strip p \<in> set const_mods then Inr (''const '' @ c @ '' *'')
          else if strip p \<in> set mut_const_mods then Inr (c @ '' **'')
          else Inl (UnknownModifier (strip p) (p @ w # b))
      | None \<Rightarrow> Inl (UnknownType b))"
  using assms
  by (simp add: convert_type_def type_map_space match_mod_split strip_base Let_def split: option.split)

text \<open>
  The dot of the second pattern stops at a line feed: a type expression with a line
  feed before its last white-space character matches neither pattern.
\<close>

lemma convert_type_multiline:
  assumes "nl \<in> set p" and "is_space w" and "b \<noteq> []" and "\<forall>c\<in>set b. \<not> is_space c"
  shows "convert_type (p @ w # b) = Inl (FailedToParse (p @ w # b))"
proof -
  have "match_mod (p @ w # b) = None"
    unfolding match_mod_def
  proof (rule greedy0_None)
    fix u v assume eq: "p @ w # b = u @ v" and u: "\<forall>c\<in>set u. c \<noteq> nl"
    have short: "length u < length p"
    proof (rule ccontr)
      assume "\<not> length u < length p"
      then have le: "length p \<le> length u" by simp
      from eq have "take (length p) (p @ w # b) = take (length p) (u @ v)" by simp
      with le have "p = take (length p) u" by simp
      then have "set p \<subseteq> set u" by (metis set_take_subset)
      with assms(1) u show False by auto
    qed
    from eq have "drop (length u) (p @ w # b) = drop (length u) (u @ v)" by simp
    with short have v: "v = drop (length u) p @ w # b" by simp
    define t where "t = drop (length u) p"
    define x where "x = hd t"
    define ys where "ys = tl t @ w # b"
    from short v have r: "v = x # ys" by (cases t) (simp_all add: t_def x_def ys_def)
    have "greedy1 not_space ys (\<lambda>b rest. if at_end rest then Some (f b) else None) = None" for f :: "string \<Rightarrow> string \<times> string"
    proof (rule ccontr)
      assume "greedy1 not_space ys (\<lambda>b rest. if at_end rest then Some (f b) else None) \<noteq> None"
      then obtain res where "greedy1 not_space ys (\<lambda>b rest. if at_end rest then Some (f b) else None) = Some res"
        by auto
      from greedy1_SomeD [OF this] obtain u2 rest
        where s: "ys = u2 @ rest" and ns: "\<forall>c\<in>set u2. not_space c" and e: "at_end rest"
        by (auto split: if_splits)
      from assms(3) have lastb: "last ys = last b" by (simp add: ys_def)
      from assms(3,4) have "\<not> is_space (last b)" by auto
      with lastb s e have "rest = []"
        by (auto simp: at_end_def is_space_def nl_def split: if_splits)
      with s ns have "not_space w" by (auto simp: ys_def)
      with assms(2) show False by (simp add: not_space_def)
    qed
    with r show "(case v of [] \<Rightarrow> None
        | y # r' \<Rightarrow> if is_space y
            then greedy1 not_space r' (\<lambda>b rest. if at_end rest then Some ([] @ u, y # b) else None)
            else None) = None"
      by simp
  qed
  with assms(2) show ?thesis by (simp add: convert_type_def type_map_space)
qed

lemma strip_mods:
  "\<forall>m\<in>set (mut_mods @ const_mods @ mut_const_mods). strip m = m \<and> nl \<notin> set m"
  by (simp add: mut_mods_def const_mods_def mut_const_mods_def strip_def is_space_def nl_def)

lemma mods_disjoint:
  "set mut_mods \<inter> set const_mods = {}" "set mut_mods \<inter> set mut_const_mods = {}"
  "set const_mods \<inter> set mut_const_mods = {}"
  by (simp_all add: mut_mods_def const_mods_def mut_const_mods_def)

subsection \<open>Types of the table, alone and behind a modifier\<close>

text \<open>
  Claim C1. For every base-type name \<open>b\<close> of the table, with the value \<open>v\<close> mapped to it,
  \<^verbatim>\<open>convert_type\<close> returns exactly \<open>v\<close> on \<open>b\<close> alone; and on a modifier spelling, a space
  and \<open>b\<close> it returns \<open>v\<close> decorated as the list of the spelling says and in no other
  way: \<open>v\<close> followed by a space and a star for the four spellings of \<open>mut_mods\<close>,
  \<^verbatim>\<open>const\<close>, a space, \<open>v\<close>, a space and a star for the two of \<open>const_mods\<close>, \<open>v\<close> followed
  by a space and two stars for the two of \<open>mut_const_mods\<close>.
\<close>

theorem convert_type_table:
  assumes "type_map b = Some v"
  shows "convert_type b = Inr v
    \<and> (\<forall>m\<in>set mut_mods. convert_type (m @ '' '' @ b) = Inr (v @ '' *''))
    \<and> (\<forall>m\<in>set const_mods. convert_type (m @ '' '' @ b) = Inr (''const '' @ v @ '' *''))
    \<and> (\<forall>m\<in>set mut_const_mods. convert_type (m @ '' '' @ b) = Inr (v @ '' **''))"
proof -
  note key = type_map_key [OF assms]
  have bare: "convert_type b = Inr v"
    using assms key by (simp add: convert_type_def match_bare_token)
  have sp: "is_space (CHR '' '')" by (simp add: is_space_def)
  have split: "convert_type (m @ '' '' @ b) =
      (if m \<in> set mut_mods then Inr (v @ '' *'')
       else if m \<in> set const_mods then Inr (''const '' @ v @ '' *'')
       else Inr (v @ '' **''))"
    if "m \<in> set (mut_mods @ const_mods @ mut_const_mods)" for m
    using that strip_mods convert_type_split [of m "CHR '' ''" b] sp key assms by auto
  have "\<forall>m\<in>set mut_mods. convert_type (m @ '' '' @ b) = Inr (v @ '' *'')"
    using split by simp
  moreover have "\<forall>m\<in>set const_mods. convert_type (m @ '' '' @ b) = Inr (''const '' @ v @ '' *'')"
    using split mods_disjoint by auto
  moreover have "\<forall>m\<in>set mut_const_mods. convert_type (m @ '' '' @ b) = Inr (v @ '' **'')"
    using split mods_disjoint by auto
  ultimately show ?thesis using bare by blast
qed

theorem convert_type_table_witness:
  "type_map ''DNSState'' = Some ''RSDNSState''
   \<and> convert_type ''DNSState'' = Inr ''RSDNSState''
   \<and> convert_type ''&'static mut DNSState'' = Inr ''RSDNSState *''
   \<and> convert_type ''* const DNSState'' = Inr ''const RSDNSState *''
   \<and> convert_type ''*mut*const DNSState'' = Inr ''RSDNSState **''"
proof -
  have t: "type_map ''DNSState'' = Some ''RSDNSState''"
    by (simp add: type_map_def type_table_def)
  from convert_type_table [OF t] show ?thesis
    using t by (simp add: mut_mods_def const_mods_def mut_const_mods_def)
qed

subsection \<open>A bare token the table does not have\<close>

text \<open>
  Claim C3. The claim asks for the error \<open>UnknownType\<close> on a single token (no white
  space in it) that the table does not have. The first pattern matches such a token,
  the test \<^verbatim>\<open>rs_type in type_map\<close> fails and has no \<^verbatim>\<open>else\<close>, the second pattern
  needs a white-space character, and the function ends on its last line: the
  exception raised says \<^verbatim>\<open>Failed to parse Rust type\<close>, not \<^verbatim>\<open>Unknown type\<close> as the
  branch of the second pattern does for a base type the table does not have.
\<close>

theorem convert_type_bare_unknown:
  assumes "rs \<noteq> []" and "\<forall>c\<in>set rs. \<not> is_space c" and "type_map rs = None"
  shows "convert_type rs = Inl (FailedToParse rs)"
  using assms by (simp add: convert_type_def match_mod_no_space)

theorem convert_type_bare_unknown_witness:
  "type_map ''usize'' = None
   \<and> convert_type ''usize'' = Inl (FailedToParse ''usize'')
   \<and> convert_type ''*mut usize'' = Inl (UnknownType ''usize'')"
proof -
  have t: "type_map ''usize'' = None"
    by (simp add: type_map_def type_table_def)
  have "convert_type ''*mut usize'' = Inl (UnknownType ''usize'')"
    using convert_type_split [of "''*mut''" "CHR '' ''" "''usize''"] t
    by (simp add: is_space_def nl_def)
  with convert_type_bare_unknown [of "''usize''"] t show ?thesis
    by (simp add: is_space_def)
qed

subsection \<open>A modifier that is not recognized\<close>

text \<open>
  Claim C6, as the claim states it, fails: a chained modifier written over two lines
  before a base type of the table is not one of the recognized spellings, and the
  exception is \<^verbatim>\<open>Failed to parse Rust type\<close>, not \<^verbatim>\<open>Unknown modifier\<close>.
\<close>

theorem convert_type_modifier_multiline:
  "type_map ''u8'' = Some ''uint8_t''
   \<and> strip (''*mut *mut'' @ [nl] @ ''   '') = ''*mut *mut''
   \<and> ''*mut *mut'' \<notin> set (mut_mods @ const_mods @ mut_const_mods)
   \<and> convert_type (''*mut *mut'' @ [nl] @ ''    u8'')
       = Inl (FailedToParse (''*mut *mut'' @ [nl] @ ''    u8''))
   \<and> convert_type (''*mut *mut'' @ [nl] @ ''    u8'')
       \<noteq> Inl (UnknownModifier ''*mut *mut'' (''*mut *mut'' @ [nl] @ ''    u8''))"
proof -
  have "convert_type ((''*mut *mut'' @ [nl] @ ''   '') @ CHR '' '' # ''u8'')
      = Inl (FailedToParse ((''*mut *mut'' @ [nl] @ ''   '') @ CHR '' '' # ''u8''))"
    by (rule convert_type_multiline) (simp_all add: is_space_def)
  moreover have "strip (''*mut *mut'' @ [nl] @ ''   '') = ''*mut *mut''"
    by (simp add: strip_def is_space_def nl_def)
  ultimately show ?thesis
    by (simp add: type_map_def type_table_def mut_mods_def const_mods_def mut_const_mods_def)
qed

text \<open>
  Claim C6, amended. The type expression is \<open>p\<close>, one white-space character \<open>w\<close> and a
  base type \<open>b\<close> of the table. When \<open>p\<close> has no line feed and \<open>p\<close>, stripped of the white
  space around it, is none of the eight recognized spellings, \<^verbatim>\<open>convert_type\<close> raises
  \<^verbatim>\<open>Unknown modifier\<close>, with the stripped prefix and the whole expression in its
  message. (With a line feed in \<open>p\<close> it is \<open>convert_type_multiline\<close> that applies.)
\<close>

theorem convert_type_unknown_modifier:
  assumes "nl \<notin> set p" and "is_space w" and "type_map b = Some v"
    and "strip p \<notin> set (mut_mods @ const_mods @ mut_const_mods)"
  shows "convert_type (p @ w # b) = Inl (UnknownModifier (strip p) (p @ w # b))"
  using assms convert_type_split [of p w b] type_map_key [OF assms(3)] by simp

theorem convert_type_unknown_modifier_witness:
  "nl \<notin> set ''*const *const'' \<and> is_space (CHR '' '') \<and> type_map ''u8'' = Some ''uint8_t''
   \<and> strip ''*const *const'' \<notin> set (mut_mods @ const_mods @ mut_const_mods)
   \<and> convert_type ''*const *const u8''
       = Inl (UnknownModifier ''*const *const'' ''*const *const u8'')"
proof -
  have h: "nl \<notin> set ''*const *const''" "is_space (CHR '' '')" "type_map ''u8'' = Some ''uint8_t''"
    "strip ''*const *const'' \<notin> set (mut_mods @ const_mods @ mut_const_mods)"
    by (simp_all add: nl_def is_space_def type_map_def type_table_def strip_def
        mut_mods_def const_mods_def mut_const_mods_def)
  have s: "strip ''*const *const'' = ''*const *const''"
    by (simp add: strip_def is_space_def)
  from convert_type_unknown_modifier [OF h] h s show ?thesis by simp
qed

text \<open>The modifier is compared once stripped: white space around a recognized spelling
  does not make it unknown.\<close>

lemma convert_type_padded_modifier:
  "convert_type ''*mut  u8'' = Inr ''uint8_t *''"
  by code_simp

subsection \<open>A base type the table does not have, behind a modifier\<close>

text \<open>
  Claim C9, as the claim states it, fails: with the modifier on one line and the base
  type, which the table does not have, indented on the next, the exception is
  \<^verbatim>\<open>Failed to parse Rust type\<close>, not \<^verbatim>\<open>Unknown type\<close>.
\<close>

theorem convert_type_base_multiline:
  "type_map ''usize'' = None
   \<and> convert_type (''*mut'' @ [nl] @ ''    usize'')
       = Inl (FailedToParse (''*mut'' @ [nl] @ ''    usize''))
   \<and> convert_type (''*mut'' @ [nl] @ ''    usize'') \<noteq> Inl (UnknownType ''usize'')"
proof -
  have "convert_type ((''*mut'' @ [nl] @ ''   '') @ CHR '' '' # ''usize'')
      = Inl (FailedToParse ((''*mut'' @ [nl] @ ''   '') @ CHR '' '' # ''usize''))"
    by (rule convert_type_multiline) (simp_all add: is_space_def)
  then show ?thesis by (simp add: type_map_def type_table_def)
qed

text \<open>
  Claim C9, amended. The type expression is \<open>p\<close>, one white-space character \<open>w\<close> and a
  token \<open>b\<close> (not empty, no white space in it) that the table does not have. When \<open>p\<close>
  has no line feed, \<^verbatim>\<open>convert_type\<close> raises \<^verbatim>\<open>Unknown type\<close> with \<open>b\<close> in its message,
  whatever \<open>p\<close> is: the base type is looked up before the modifier.
\<close>

theorem convert_type_unknown_base:
  assumes "nl \<notin> set p" and "is_space w" and "b \<noteq> []" and "\<forall>c\<in>set b. \<not> is_space c"
    and "type_map b = None"
  shows "convert_type (p @ w # b) = Inl (UnknownType b)"
  using assms convert_type_split [of p w b] by simp

theorem convert_type_unknown_base_witness:
  "nl \<notin> set ''*foo'' \<and> is_space (CHR '' '') \<and> ''usize'' \<noteq> []
   \<and> list_all (\<lambda>c. \<not> is_space c) ''usize'' \<and> type_map ''usize'' = None
   \<and> ''*foo'' \<notin> set (mut_mods @ const_mods @ mut_const_mods)
   \<and> convert_type ''*foo usize'' = Inl (UnknownType ''usize'')"
proof -
  have h: "nl \<notin> set ''*foo''" "is_space (CHR '' '')" "''usize'' \<noteq> []"
    "\<forall>c\<in>set ''usize''. \<not> is_space c" "type_map ''usize'' = None"
    by (simp_all add: nl_def is_space_def type_map_def type_table_def)
  from convert_type_unknown_base [OF h] h show ?thesis
    by (simp add: mut_mods_def const_mods_def mut_const_mods_def)
qed

section \<open>The loops of \<^verbatim>\<open>gen_headers\<close>\<close>

subsection \<open>The pieces of a parameter list\<close>

text \<open>\<^verbatim>\<open>split\<close> returns at least one piece: the first case of the \<^theory_text>\<open>case\<close> in
  \<open>split_on\<close> is never taken.\<close>

lemma split_on_pieces:
  "split_on d s \<noteq> [] \<and> length (split_on d s) = Suc (length (filter (\<lambda>c. c = d) s))"
  by (induction s) (auto split: list.splits)

subsection \<open>The lists the loops append to\<close>

lemma args_loop_acc:
  "args_loop acc pieces = (case args_loop [] pieces of Inl e \<Rightarrow> Inl e | Inr r \<Rightarrow> Inr (acc @ r))"
proof (induction pieces arbitrary: acc)
  case Nil
  show ?case by simp
next
  case (Cons arg rest)
  note IH = Cons.IH
  show ?case
  proof (cases "arg = []")
    case True
    with IH [of acc] show ?thesis by simp
  next
    case False
    show ?thesis
    proof (cases "split_first CHR '':'' arg")
      case None
      with False show ?thesis by simp
    next
      case (Some nt)
      obtain n t where nt: "nt = (n, t)" by (cases nt)
      show ?thesis
      proof (cases "convert_type (strip t)")
        case (Inl e)
        with False Some nt show ?thesis by simp
      next
        case (Inr c)
        define x where "x = (if strip n \<noteq> ''_'' then c @ '' '' @ strip n else c)"
        have l: "args_loop a (arg # rest) = args_loop (a @ [x]) rest" for a
          using False Some nt Inr by (simp add: x_def)
        show ?thesis
          unfolding l using IH [of "acc @ [x]"] IH [of "[] @ [x]"]
          by (simp split: sum.splits)
      qed
    qed
  qed
qed

lemma params_loop_acc:
  "params_loop acc pieces = (case params_loop [] pieces of Inl e \<Rightarrow> Inl e | Inr r \<Rightarrow> Inr (acc @ r))"
proof (induction pieces arbitrary: acc)
  case Nil
  show ?case by simp
next
  case (Cons arg rest)
  note IH = Cons.IH
  show ?case
  proof (cases "arg = []")
    case True
    with IH [of acc] show ?thesis by simp
  next
    case False
    show ?thesis
    proof (cases "split_first CHR '':'' arg")
      case None
      with False show ?thesis by simp
    next
      case (Some nt)
      obtain n t where nt: "nt = (n, t)" by (cases nt)
      have l: "params_loop a (arg # rest) = params_loop (a @ [(strip n, strip t)]) rest" for a
        using False Some nt by simp
      show ?thesis
        unfolding l using IH [of "acc @ [(strip n, strip t)]"] IH [of "[] @ [(strip n, strip t)]"]
        by (simp split: sum.splits)
    qed
  qed
qed

lemma params_loop_Cons:
  "params_loop [] (arg # rest) =
     (if arg = [] then params_loop [] rest
      else case split_first CHR '':'' arg of
             None \<Rightarrow> Inl ValueError
           | Some (n, t) \<Rightarrow>
               (case params_loop [] rest of
                  Inl e \<Rightarrow> Inl e
                | Inr r \<Rightarrow> Inr ((strip n, strip t) # r)))"
  by (simp add: params_loop_acc [of "[x]" for x] split: option.splits sum.splits)

lemma args_loop_Cons:
  "args_loop [] (arg # rest) =
     (if arg = [] then args_loop [] rest
      else case split_first CHR '':'' arg of
             None \<Rightarrow> Inl ValueError
           | Some (n, t) \<Rightarrow>
               (case render_param (strip n, strip t) of
                  Inl e \<Rightarrow> Inl e
                | Inr x \<Rightarrow>
                    (case args_loop [] rest of
                       Inl e \<Rightarrow> Inl e
                     | Inr r \<Rightarrow> Inr (x # r))))"
  by (simp add: args_loop_acc [of "[x]" for x] render_param_def split: option.splits sum.splits)

lemma write_loop_acc:
  "write_loop w fns = (case write_loop [] fns of Inl e \<Rightarrow> Inl e | Inr r \<Rightarrow> Inr (w @ r))"
proof (induction fns arbitrary: w)
  case Nil
  show ?case by simp
next
  case (Cons f fns)
  show ?case
    using Cons [of "w @ [x]" for x] Cons [of "[] @ [x]" for x]
    by (simp split: sum.splits)
qed

subsection \<open>What the loops return\<close>

text \<open>The list of rendered parameters is the list of the parameters of the descriptor,
  each rendered, in the same order.\<close>

lemma args_loop_render:
  "params_loop [] pieces = Inr ps \<Longrightarrow>
     (args_loop [] pieces = Inr args) = (map render_param ps = map Inr args)"
proof (induction pieces arbitrary: ps args)
  case Nil
  then show ?case by auto
next
  case (Cons arg rest)
  show ?case
  proof (cases "arg = []")
    case True
    with Cons.prems have "params_loop [] rest = Inr ps" by simp
    from Cons.IH [OF this] True show ?thesis by simp
  next
    case False
    with Cons.prems [unfolded params_loop_Cons]
    obtain n t r where s: "split_first CHR '':'' arg = Some (n, t)"
      and r: "params_loop [] rest = Inr r" and ps: "ps = (strip n, strip t) # r"
      by (auto split: option.splits sum.splits)
    from Cons.IH [OF r] have IH: "(args_loop [] rest = Inr a) = (map render_param r = map Inr a)" for a .
    have unfold: "args_loop [] (arg # rest) =
        (case render_param (strip n, strip t) of
           Inl e \<Rightarrow> Inl e
         | Inr x \<Rightarrow> (case args_loop [] rest of Inl e \<Rightarrow> Inl e | Inr a \<Rightarrow> Inr (x # a)))"
      using False s by (subst args_loop_Cons) simp
    show ?thesis
    proof (cases "render_param (strip n, strip t)")
      case (Inl e)
      with unfold ps show ?thesis by (cases args) simp_all
    next
      case (Inr x)
      show ?thesis
      proof (cases "args_loop [] rest")
        case (Inl e)
        have "map render_param r \<noteq> map Inr a" for a
          using IH [of a] Inl by simp
        with unfold Inr Inl ps show ?thesis by (cases args) simp_all
      next
        case rr: (Inr a)
        with IH [of a] have m: "map render_param r = map Inr a" by simp
        have inj: "(map Inr a = map Inr b) = (a = b)" for b :: "string list"
          by (simp add: inj_map_eq_map)
        from unfold Inr rr ps m inj show ?thesis by (cases args) auto
      qed
    qed
  qed
qed

text \<open>The outer loop writes the prototype of every match, in the order of the matches.\<close>

lemma write_loop_map:
  "(write_loop [] fns = Inr ls) = (map prototype fns = map Inr ls)"
proof (induction fns arbitrary: ls)
  case Nil
  show ?case by auto
next
  case (Cons f fns)
  have unfold: "write_loop [] (f # fns) =
      (case prototype f of
         Inl e \<Rightarrow> Inl e
       | Inr x \<Rightarrow> (case write_loop [] fns of Inl e \<Rightarrow> Inl e | Inr r \<Rightarrow> Inr (x # r)))"
    by (simp add: write_loop_acc [of "[x]" for x] split: sum.splits)
  show ?case
  proof (cases "prototype f")
    case (Inl e)
    with unfold show ?thesis by (cases ls) simp_all
  next
    case (Inr x)
    show ?thesis
    proof (cases "write_loop [] fns")
      case (Inl e)
      have "map prototype fns \<noteq> map Inr a" for a
        using Cons [of a] Inl by simp
      with unfold Inr Inl show ?thesis by (cases ls) simp_all
    next
      case rr: (Inr a)
      with Cons [of a] have m: "map prototype fns = map Inr a" by simp
      have inj: "(map Inr a = map Inr b) = (a = b)" for b :: "string list"
        by (simp add: inj_map_eq_map)
      from unfold Inr rr m inj show ?thesis by (cases ls) auto
    qed
  qed
qed

section \<open>The scan for declarations\<close>

subsection \<open>One step of the scan\<close>

lemma finditer_from_skip:
  "\<not> bol \<or> match_decl (c # cs) = None \<Longrightarrow>
     finditer_from pos bol (c # cs) = finditer_from (Suc pos) (c = nl) cs"
  by auto

lemma finditer_from_match:
  assumes "bol" and "match_decl (c # cs) = Some (m, rest)"
  shows "\<exists>u. c # cs = u @ rest \<and> u \<noteq> [] \<and>
     finditer_from pos bol (c # cs) = (pos, m) # finditer_from (pos + length u) (last u = nl) rest"
proof -
  from match_decl_rest [OF assms(2)] obtain x where x: "c # cs = (''pub '' @ x) @ rest" by auto
  define u where "u = ''pub '' @ x"
  from x have eq: "c # cs = u @ rest" and ne: "u \<noteq> []" by (simp_all add: u_def)
  from eq have n: "length (c # cs) - length rest = length u"
    by (metis add_diff_cancel_right' length_append)
  from eq have t: "take (length u) (c # cs) = u" by (metis append_eq_conv_conj)
  have "finditer_from pos bol (c # cs) =
      (pos, m) # finditer_from (pos + length u) (last u = nl) rest"
    using assms n t by (simp add: Let_def del: length_Cons take_Suc_Cons)
  with eq ne show ?thesis by blast
qed

text \<open>
  With \<open>s\<close> the text from the offset \<open>pos\<close> on: every match found starts at or after
  \<open>pos\<close>, where a line starts, and is a match of the pattern there; the offsets
  increase; and a place at or after \<open>pos\<close> where a line starts and the pattern matches
  is the start of a match found or lies inside one.
\<close>

lemma finditer_from_inv:
  assumes "drop pos buf = s" and "pos \<le> length buf" and "bol = line_start buf pos"
  shows "(\<forall>(i, m)\<in>set (finditer_from pos bol s).
            pos \<le> i \<and> i < length buf \<and> line_start buf i
            \<and> (\<exists>rest. match_decl (drop i buf) = Some (m, rest)))
       \<and> sorted_wrt (<) (map fst (finditer_from pos bol s))
       \<and> (\<forall>j. pos \<le> j \<and> j < length buf \<and> line_start buf j \<and> match_decl (drop j buf) \<noteq> None \<longrightarrow>
            (\<exists>(i, m)\<in>set (finditer_from pos bol s). \<exists>rest.
               match_decl (drop i buf) = Some (m, rest) \<and> i \<le> j \<and> j < length buf - length rest))"
  using assms
proof (induction "length s" arbitrary: s pos bol rule: less_induct)
  case less
  show ?case
  proof (cases s)
    case Nil
    with less.prems have "pos = length buf" by simp
    with Nil show ?thesis by simp
  next
    case (Cons c cs)
    with less.prems have pos: "pos < length buf" by (metis drop_eq_Nil2 list.distinct(1) not_le_imp_less)
    from Cons less.prems(1) have c: "buf ! pos = c" and cs: "drop (Suc pos) buf = cs"
      using pos by (metis nth_via_drop, metis drop_Suc tl_drop list.sel(3))
    show ?thesis
    proof (cases "bol \<and> match_decl (c # cs) \<noteq> None")
      case False
      then have "\<not> bol \<or> match_decl (c # cs) = None" by blast
      then have skip: "finditer_from pos bol s = finditer_from (Suc pos) (c = nl) cs"
        unfolding Cons by (rule finditer_from_skip)
      have bol': "(c = nl) = line_start buf (Suc pos)"
        using c by (simp add: line_start_def)
      have "length cs < length s" using Cons by simp
      from less.hyps [OF this cs _ bol'] pos
      have IH: "(\<forall>(i, m)\<in>set (finditer_from (Suc pos) (c = nl) cs).
            Suc pos \<le> i \<and> i < length buf \<and> line_start buf i
            \<and> (\<exists>rest. match_decl (drop i buf) = Some (m, rest)))"
        "sorted_wrt (<) (map fst (finditer_from (Suc pos) (c = nl) cs))"
        "(\<forall>j. Suc pos \<le> j \<and> j < length buf \<and> line_start buf j \<and> match_decl (drop j buf) \<noteq> None \<longrightarrow>
            (\<exists>(i, m)\<in>set (finditer_from (Suc pos) (c = nl) cs). \<exists>rest.
               match_decl (drop i buf) = Some (m, rest) \<and> i \<le> j \<and> j < length buf - length rest))"
        by auto
      have here: "\<not> (line_start buf pos \<and> match_decl (drop pos buf) \<noteq> None)"
        using False less.prems(1,3) Cons by simp
      have cover: "\<exists>(i, m)\<in>set (finditer_from (Suc pos) (c = nl) cs). \<exists>rest.
               match_decl (drop i buf) = Some (m, rest) \<and> i \<le> j \<and> j < length buf - length rest"
        if "pos \<le> j" "j < length buf" "line_start buf j" "match_decl (drop j buf) \<noteq> None" for j
      proof -
        from that here have "j \<noteq> pos" by auto
        with that(1) have "Suc pos \<le> j" by simp
        with IH(3) that show ?thesis by blast
      qed
      show ?thesis
        unfolding skip using IH(1,2) cover by fastforce
    next
      case True
      then obtain m rest where md: "match_decl (c # cs) = Some (m, rest)" and bol: "bol" by auto
      from finditer_from_match [OF bol md, of pos] obtain u
        where eq: "c # cs = u @ rest" and ne: "u \<noteq> []"
          and step: "finditer_from pos bol (c # cs) =
            (pos, m) # finditer_from (pos + length u) (last u = nl) rest"
        by blast
      from eq less.prems(1) Cons have d: "drop pos buf = u @ rest" by simp
      then have len: "pos + length u + length rest = length buf"
        by (metis add.assoc length_append length_drop less.prems(2) le_add_diff_inverse)
      have rest: "drop (pos + length u) buf = rest"
        using d by (metis add.commute append_eq_conv_conj drop_drop)
      have lastu: "buf ! (pos + length u - 1) = last u"
      proof -
        have "buf ! (pos + (length u - 1)) = (u @ rest) ! (length u - 1)"
          using d len ne by (metis add_leD1 le_add1 nth_drop less.prems(2))
        also have "\<dots> = last u" using ne by (simp add: nth_append last_conv_nth)
        finally show ?thesis using ne by (cases u) simp_all
      qed
      have bol': "(last u = nl) = line_start buf (pos + length u)"
        using ne lastu by (simp add: line_start_def)
      have "length rest < length s" using eq ne Cons by (metis length_append length_greater_0_conv less_add_same_cancel2 add.commute)
      from less.hyps [OF this rest _ bol'] len
      have IH: "(\<forall>(i, m)\<in>set (finditer_from (pos + length u) (last u = nl) rest).
            pos + length u \<le> i \<and> i < length buf \<and> line_start buf i
            \<and> (\<exists>rest. match_decl (drop i buf) = Some (m, rest)))"
        "sorted_wrt (<) (map fst (finditer_from (pos + length u) (last u = nl) rest))"
        "(\<forall>j. pos + length u \<le> j \<and> j < length buf \<and> line_start buf j \<and> match_decl (drop j buf) \<noteq> None \<longrightarrow>
            (\<exists>(i, m)\<in>set (finditer_from (pos + length u) (last u = nl) rest). \<exists>rest.
               match_decl (drop i buf) = Some (m, rest) \<and> i \<le> j \<and> j < length buf - length rest))"
        by auto
      have head: "match_decl (drop pos buf) = Some (m, rest)" "line_start buf pos"
        using md less.prems(1,3) Cons bol by simp_all
      have ulen: "0 < length u" using ne by simp
      have end_: "length buf - length rest = pos + length u" using len by simp
      have p1: "\<forall>(i, m)\<in>set (finditer_from pos bol s).
            pos \<le> i \<and> i < length buf \<and> line_start buf i
            \<and> (\<exists>rest. match_decl (drop i buf) = Some (m, rest))"
        unfolding Cons step using IH(1) head pos by fastforce
      have p2: "sorted_wrt (<) (map fst (finditer_from pos bol s))"
      proof -
        have "pos < i" if "(i, m') \<in> set (finditer_from (pos + length u) (last u = nl) rest)" for i m'
        proof -
          from IH(1) that have "pos + length u \<le> i" by (blast dest: bspec)
          with ulen show ?thesis by linarith
        qed
        then have "\<forall>i\<in>set (map fst (finditer_from (pos + length u) (last u = nl) rest)). pos < i"
          by auto
        with IH(2) show ?thesis unfolding Cons step by simp
      qed
      have p3: "\<exists>(i, m)\<in>set (finditer_from pos bol s). \<exists>rest.
               match_decl (drop i buf) = Some (m, rest) \<and> i \<le> j \<and> j < length buf - length rest"
        if j: "pos \<le> j" "j < length buf" "line_start buf j" "match_decl (drop j buf) \<noteq> None" for j
      proof (cases "j < pos + length u")
        case True
        with j(1) head(1) end_ show ?thesis unfolding Cons step by auto
      next
        case False
        then have "pos + length u \<le> j" by simp
        with IH(3) j obtain i m' rest'
          where "(i, m') \<in> set (finditer_from (pos + length u) (last u = nl) rest)"
            "match_decl (drop i buf) = Some (m', rest')" "i \<le> j" "j < length buf - length rest'"
          by blast
        then show ?thesis unfolding Cons step by auto
      qed
      from p1 p2 p3 show ?thesis by blast
    qed
  qed
qed

lemma findall_first:
  assumes md: "match_decl (c # cs) = Some (m, r)"
  shows "\<exists>fns. findall (c # cs) = m # fns"
proof -
  from finditer_from_match [OF _ md, of True 0] obtain x
    where "finditer_from 0 True (c # cs) =
        (0, m) # finditer_from (0 + length x) (last x = nl) r"
    by blast
  then have "findall (c # cs) = m # map snd (finditer_from (0 + length x) (last x = nl) r)"
    unfolding findall_def finditer_def by simp
  then show ?thesis by blast
qed

lemma gen_headers_lines_first:
  assumes "findall buf = m # fns" and "prototype m = Inr line"
  shows "gen_headers_lines buf =
      (case write_loop [] fns of Inl e \<Rightarrow> Inl e | Inr written \<Rightarrow> Inr (line # written))"
  unfolding gen_headers_lines_def assms(1)
  using assms(2) write_loop_acc [of "[line]" fns] by (simp split: sum.splits)

subsection \<open>The names of the matches\<close>

text \<open>Group 2 of a match is not empty and holds characters of the class of names only.\<close>

lemma after_args_name:
  "after_args u n a t = Some (m, rest) \<Longrightarrow> fn_name m = n"
  by (auto simp: after_args_def split: option.splits)

lemma after_name_name:
  assumes "after_name u n t = Some (m, rest)"
  shows "fn_name m = n"
proof -
  from assms obtain t1 where l: "literal ''('' t = Some t1"
    by (auto simp: after_name_def split: option.splits)
  show ?thesis
  proof (cases "greedy1 not_brace t1 (\<lambda>a t2. after_args u n a t2)")
    case None
    with assms l have "after_args u n [] t1 = Some (m, rest)" by (simp add: after_name_def)
    then show ?thesis by (rule after_args_name)
  next
    case (Some r)
    with assms l have "greedy1 not_brace t1 (\<lambda>a t2. after_args u n a t2) = Some (m, rest)"
      by (simp add: after_name_def)
    from greedy1_SomeD [OF this] obtain a t2 where "after_args u n a t2 = Some (m, rest)"
      by auto
    then show ?thesis by (rule after_args_name)
  qed
qed

lemma after_pub_name:
  assumes "after_pub u t = Some (m, rest)"
  shows "fn_name m \<noteq> [] \<and> list_all name_char (fn_name m)"
proof -
  from assms obtain t1
    where g: "greedy1 name_char t1 (\<lambda>n t2. after_name u n t2) = Some (m, rest)"
    by (auto simp: after_pub_def split: option.splits)
  from greedy1_SomeD [OF g] obtain n t2
    where "n \<noteq> []" "\<forall>c\<in>set n. name_char c" "after_name u n t2 = Some (m, rest)"
    by auto
  with after_name_name [of u n t2 m rest] show ?thesis by (simp add: list_all_iff)
qed

lemma match_decl_name:
  assumes "match_decl s = Some (m, rest)"
  shows "fn_name m \<noteq> [] \<and> list_all name_char (fn_name m)"
proof -
  from assms obtain u t where "after_pub u t = Some (m, rest)"
    by (auto simp: match_decl_def split: option.splits)
  then show ?thesis by (rule after_pub_name)
qed

lemma findall_names:
  "list_all (\<lambda>m. fn_name m \<noteq> [] \<and> list_all name_char (fn_name m)) (findall buf)"
proof -
  have "\<forall>(i, m)\<in>set (finditer buf). \<exists>rest. match_decl (drop i buf) = Some (m, rest)"
    using finditer_from_inv [of 0 buf buf True]
    by (fastforce simp: finditer_def line_start_def)
  then have "\<forall>m\<in>set (findall buf). \<exists>s rest. match_decl s = Some (m, rest)"
    by (fastforce simp: findall_def)
  then have "\<forall>m\<in>set (findall buf). fn_name m \<noteq> [] \<and> list_all name_char (fn_name m)"
    using match_decl_name by blast
  then show ?thesis by (simp add: list_all_iff)
qed

subsection \<open>A declaration with an empty parameter list and no return type\<close>

lemma greedy1_None:
  assumes "\<And>u v. s = u @ v \<Longrightarrow> u \<noteq> [] \<Longrightarrow> \<forall>c\<in>set u. P c \<Longrightarrow> k u v = None"
  shows "greedy1 P s k = None"
proof (cases s)
  case Nil
  then show ?thesis by (simp add: greedy1_def)
next
  case (Cons c cs)
  show ?thesis
  proof (cases "P c")
    case False
    with Cons show ?thesis by (simp add: greedy1_def)
  next
    case True
    have "greedy0 P [c] cs k = None"
    proof (rule greedy0_None)
      fix u v assume "cs = u @ v" and "\<forall>c\<in>set u. P c"
      with Cons True show "k ([c] @ u) v = None"
        using assms [of "c # u" v] by simp
    qed
    with Cons True show ?thesis by (simp add: greedy1_def)
  qed
qed

lemma greedy1_maximal:
  assumes "u \<noteq> []" and "\<forall>c\<in>set u. P c" and "v = [] \<or> \<not> P (hd v)" and "k u v = Some r"
  shows "greedy1 P (u @ v) k = Some r"
proof -
  from assms(1) obtain c cs where u: "u = c # cs" by (cases u) auto
  have "greedy0 P [c] (cs @ v) k = Some r"
  proof (rule greedy0_Some)
    show "\<forall>c\<in>set cs. P c" using assms(2) u by simp
    show "k ([c] @ cs) v = Some r" using assms(4) u by simp
  next
    fix u' v' assume eq: "cs @ v = u' @ v'" and len: "length cs < length u'" and p: "\<forall>c\<in>set u'. P c"
    from eq len obtain t where "u' = cs @ t" "t \<noteq> []" "v = t @ v'"
      by (auto simp: append_eq_append_conv2)
    with p assms(3) have False by (cases t) auto
    then show "k ([c] @ u') v' = None" ..
  qed
  with u assms(2) show ?thesis by (simp add: greedy1_def)
qed

lemma split_before:
  assumes "xs @ m # ys = a @ t" and "m \<notin> set a"
  shows "\<exists>xs2. xs = a @ xs2 \<and> t = xs2 @ m # ys"
proof -
  from assms(1) consider us where "xs = a @ us" "t = us @ m # ys"
    | us where "a = xs @ us" "us \<noteq> []" "m # ys = us @ t"
    by (auto simp: append_eq_append_conv2) (metis append_Nil2)
  then show ?thesis
  proof cases
    case 1
    then show ?thesis by blast
  next
    case 2
    then have "m \<in> set a" by (cases us) auto
    with assms(2) show ?thesis by simp
  qed
qed

lemma space_chars:
  "is_space c \<Longrightarrow> c \<noteq> CHR '')'' \<and> c \<noteq> CHR ''-'' \<and> c \<noteq> CHR ''{''"
  by (auto simp: is_space_def)

lemma ret_group_brace:
  assumes "\<forall>c\<in>set ws. is_space c"
  shows "ret_group (ws @ CHR ''{'' # rest) = None"
  unfolding ret_group_def
proof (rule greedy1_None)
  fix u v assume eq: "ws @ CHR ''{'' # rest = u @ v" and sp: "\<forall>c\<in>set u. is_space c"
  from sp have "CHR ''{'' \<notin> set u" using space_chars by blast
  from split_before [OF eq this] obtain xs2 where "ws = u @ xs2" "v = xs2 @ CHR ''{'' # rest"
    by blast
  with assms have "literal ''-> '' v = None"
    using space_chars by (cases xs2) auto
  then show "(case literal ''-> '' v of None \<Rightarrow> None
      | Some t2 \<Rightarrow> greedy1 not_brace t2 (\<lambda>r t3. Some (u @ ''-> '' @ r, r, t3))) = None"
    by simp
qed

lemma after_name_no_params:
  assumes "\<forall>c\<in>set ws. is_space c"
  shows "after_name u n (''()'' @ ws @ CHR ''{'' # rest) =
    Some (\<lparr>fn_unsafe = u, fn_name = n, fn_args = [], fn_arrow = [], fn_ret = []\<rparr>,
          ws @ CHR ''{'' # rest)"
proof -
  have skip: "after_args u n [] ('')'' @ ws @ CHR ''{'' # rest) =
      Some (\<lparr>fn_unsafe = u, fn_name = n, fn_args = [], fn_arrow = [], fn_ret = []\<rparr>,
            ws @ CHR ''{'' # rest)"
    using ret_group_brace [OF assms] by (simp add: after_args_def)
  have "greedy1 not_brace ('')'' @ ws @ CHR ''{'' # rest) (\<lambda>a t2. after_args u n a t2) = None"
  proof (rule greedy1_None)
    fix a t2 assume eq: "'')'' @ ws @ CHR ''{'' # rest = a @ t2" and nb: "\<forall>c\<in>set a. not_brace c"
    from nb have "CHR ''{'' \<notin> set a" by (auto simp: not_brace_def)
    from split_before [of "'')'' @ ws" "CHR ''{''" rest a t2] eq this
    obtain xs2 where x: "'')'' @ ws = a @ xs2" "t2 = xs2 @ CHR ''{'' # rest" by auto
    assume "a \<noteq> []"
    with x(1) have "set xs2 \<subseteq> set ws" by (cases a) auto
    with assms x(2) have "literal '')'' t2 = None"
      using space_chars by (cases xs2) auto
    then show "after_args u n a t2 = None" by (simp add: after_args_def)
  qed
  with skip show ?thesis by (simp add: after_name_def)
qed

lemma after_pub_no_params:
  assumes "n \<noteq> []" and "\<forall>c\<in>set n. name_char c" and "\<forall>c\<in>set ws. is_space c"
  shows "after_pub u (''extern \"C\" fn '' @ n @ ''()'' @ ws @ CHR ''{'' # rest) =
    Some (\<lparr>fn_unsafe = u, fn_name = n, fn_args = [], fn_arrow = [], fn_ret = []\<rparr>,
          ws @ CHR ''{'' # rest)"
proof -
  have "greedy1 name_char (n @ (''()'' @ ws @ CHR ''{'' # rest)) (\<lambda>n t2. after_name u n t2) =
      Some (\<lparr>fn_unsafe = u, fn_name = n, fn_args = [], fn_arrow = [], fn_ret = []\<rparr>,
            ws @ CHR ''{'' # rest)"
    by (rule greedy1_maximal)
       (use assms after_name_no_params [OF assms(3)] in \<open>simp_all add: name_char_def\<close>)
  then show ?thesis by (simp add: after_pub_def)
qed

lemma match_decl_no_params:
  assumes "n \<noteq> []" and "\<forall>c\<in>set n. name_char c" and "\<forall>c\<in>set ws. is_space c"
    and "u = [] \<or> u = ''unsafe ''"
  shows "match_decl (''pub '' @ u @ ''extern \"C\" fn '' @ n @ ''()'' @ ws @ CHR ''{'' # rest) =
    Some (\<lparr>fn_unsafe = u, fn_name = n, fn_args = [], fn_arrow = [], fn_ret = []\<rparr>,
          ws @ CHR ''{'' # rest)"
  using assms(4) after_pub_no_params [OF assms(1-3)]
  by (auto simp: match_decl_def)

lemma prototype_no_params:
  assumes "list_all is_ascii (fn_name fn)" and "fn_args fn = []" and "strip (fn_ret fn) = []"
  shows "prototype fn = Inr (''void '' @ fn_name fn @ ''(void);'' @ [nl])"
  using assms by (simp add: prototype_def is_ascii_def)

lemma name_char_ascii:
  assumes "name_char c"
  shows "is_ascii c"
proof -
  have z: "CHR ''z'' \<le> CHR 0x7F" and n: "CHR ''9'' \<le> CHR 0x7F" by simp_all
  from assms consider "c = CHR ''A''" | "c = CHR ''_''" | "c = CHR ''Z''"
    | "c \<le> CHR ''z''" | "c \<le> CHR ''9''"
    unfolding name_char_def by blast
  then show ?thesis
  proof cases
    case 4
    then show ?thesis unfolding is_ascii_def using z by (rule order_trans)
  next
    case 5
    then show ?thesis unfolding is_ascii_def using n by (rule order_trans)
  qed (simp_all add: is_ascii_def)
qed

section \<open>The lines written\<close>

subsection \<open>The four source texts, run\<close>

lemma finditer_two_functions:
  "finditer two_functions =
     [(0, \<lparr>fn_unsafe = [], fn_name = ''rs_a'', fn_args = [], fn_arrow = [], fn_ret = []\<rparr>),
      (28, \<lparr>fn_unsafe = ''unsafe '', fn_name = ''rs_b'', fn_args = ''_: u8, st: &mut DNSState'',
             fn_arrow = '' -> *const u8 '', fn_ret = ''*const u8 ''\<rparr>)]"
  unfolding two_functions_def by code_simp

lemma lines_two_functions:
  "gen_headers_lines two_functions =
     Inr [''void rs_a(void);'' @ [nl],
          ''const uint8_t * rs_b(uint8_t, RSDNSState * st);'' @ [nl]]"
  unfolding two_functions_def by code_simp

subsection \<open>No parameter and no return type\<close>

text \<open>
  Claim C5. A source text that starts with the declaration of a function named \<open>n\<close>
  (\<open>example_fn\<close> in the claim), \<^verbatim>\<open>unsafe\<close> or not, with the empty parameter list \<^verbatim>\<open>()\<close>,
  no return type and then, after any white space, the brace of its body, has that
  declaration as its first match, with empty groups for the parameters and the return
  type; the first line written is \<^verbatim>\<open>void n(void);\<close> and the other lines are those of the
  other matches. For the function \<open>example_fn\<close> alone in its file the text written is
  the line \<^verbatim>\<open>void example_fn(void);\<close>.
\<close>

theorem no_parameters_no_return:
  assumes "n \<noteq> []" and "\<forall>c\<in>set n. name_char c" and "\<forall>c\<in>set ws. is_space c"
    and "u = [] \<or> u = ''unsafe ''"
  shows "\<exists>fns. findall (''pub '' @ u @ ''extern \"C\" fn '' @ n @ ''()'' @ ws @ CHR ''{'' # rest)
               = \<lparr>fn_unsafe = u, fn_name = n, fn_args = [], fn_arrow = [], fn_ret = []\<rparr> # fns
         \<and> gen_headers_lines (''pub '' @ u @ ''extern \"C\" fn '' @ n @ ''()'' @ ws @ CHR ''{'' # rest)
               = (case write_loop [] fns of
                    Inl e \<Rightarrow> Inl e
                  | Inr written \<Rightarrow> Inr ((''void '' @ n @ ''(void);'' @ [nl]) # written))"
proof -
  define m where "m = \<lparr>fn_unsafe = u, fn_name = n, fn_args = [], fn_arrow = [], fn_ret = []\<rparr>"
  define buf where "buf = ''pub '' @ u @ ''extern \"C\" fn '' @ n @ ''()'' @ ws @ CHR ''{'' # rest"
  have md: "match_decl buf = Some (m, ws @ CHR ''{'' # rest)"
    unfolding buf_def m_def by (rule match_decl_no_params [OF assms])
  have "buf = CHR ''p'' # tl buf" by (simp add: buf_def)
  with md have "match_decl (CHR ''p'' # tl buf) = Some (m, ws @ CHR ''{'' # rest)" by simp
  from findall_first [OF this] \<open>buf = CHR ''p'' # tl buf\<close>
  obtain fns where fa: "findall buf = m # fns" by auto
  have "list_all is_ascii (fn_name m)"
    using assms(2) name_char_ascii by (simp add: list_all_iff m_def)
  then have "prototype m = Inr (''void '' @ fn_name m @ ''(void);'' @ [nl])"
    by (rule prototype_no_params) (simp_all add: m_def strip_def)
  then have pr: "prototype m = Inr (''void '' @ n @ ''(void);'' @ [nl])"
    by (simp add: m_def)
  from gen_headers_lines_first [OF fa pr] fa
  show ?thesis unfolding m_def buf_def by blast
qed

theorem no_parameters_no_return_witness:
  "gen_headers (''pub extern \"C\" fn example_fn() {'' @ [nl] @ ''}'' @ [nl])
     = Inr (''void example_fn(void);'' @ [nl])"
proof -
  define buf where "buf = ''pub '' @ [] @ ''extern \"C\" fn '' @ ''example_fn'' @ ''()'' @ '' '' @
      CHR ''{'' # ([nl] @ ''}'' @ [nl])"
  define m where "m = \<lparr>fn_unsafe = [], fn_name = ''example_fn'', fn_args = [], fn_arrow = [],
      fn_ret = []\<rparr>"
  have h: "''example_fn'' \<noteq> []" "\<forall>c\<in>set ''example_fn''. name_char c"
    "\<forall>c\<in>set '' ''. is_space c" "[] = [] \<or> [] = ''unsafe ''"
    by (simp_all add: name_char_def is_space_def)
  from no_parameters_no_return [OF h, of "[nl] @ ''}'' @ [nl]"] obtain fns
    where f: "findall buf = m # fns"
      and g: "gen_headers_lines buf
        = (case write_loop [] fns of
             Inl e \<Rightarrow> Inl e
           | Inr written \<Rightarrow> Inr ((''void '' @ ''example_fn'' @ ''(void);'' @ [nl]) # written))"
    unfolding buf_def m_def by blast
  have "findall buf = [m]"
    unfolding buf_def m_def by code_simp
  with f have "fns = []" by simp
  with g have "gen_headers buf = Inr (''void example_fn(void);'' @ [nl])"
    by (simp add: gen_headers_def)
  then show ?thesis by (simp add: buf_def)
qed

subsection \<open>The placeholder name\<close>

text \<open>
  Claim C7. For a match whose descriptor is \<open>d\<close>, the inner loop returns the list
  \<open>args\<close> exactly when \<open>args\<close> has one element for each parameter of \<open>d\<close>, in the same
  order, and the element at each position is the translated type of the parameter
  there, alone when the name of the parameter is \<^verbatim>\<open>_\<close>, followed by a space and the name
  otherwise.
\<close>

theorem placeholder_parameter:
  assumes "descriptor_of fn = Inr d"
  shows "(args_loop [] (split_on CHR '','' (fn_args fn)) = Inr args) =
     (length args = length (fd_parameters d) \<and>
      (\<forall>i<length args. \<exists>c_type.
         convert_type (snd (fd_parameters d ! i)) = Inr c_type \<and>
         args ! i = (if fst (fd_parameters d ! i) = ''_'' then c_type
                     else c_type @ '' '' @ fst (fd_parameters d ! i))))"
proof -
  from assms have ps: "params_loop [] (split_on CHR '','' (fn_args fn)) = Inr (fd_parameters d)"
    by (auto simp: descriptor_of_def split: sum.splits)
  have r: "(render_param p = Inr x) =
      (\<exists>c_type. convert_type (snd p) = Inr c_type \<and>
         x = (if fst p = ''_'' then c_type else c_type @ '' '' @ fst p))" for p x
    by (auto simp: render_param_def split: sum.splits)
  have "(map render_param ps = map Inr args) =
      (length args = length ps \<and> (\<forall>i<length args. render_param (ps ! i) = Inr (args ! i)))" for ps
    by (auto simp: list_eq_iff_nth_eq)
  with args_loop_render [OF ps, of args] r show ?thesis by simp
qed

theorem placeholder_parameter_witness:
  "descriptor_of \<lparr>fn_unsafe = [], fn_name = ''rs_b'', fn_args = ''_: u8, st: &mut DNSState'',
                  fn_arrow = [], fn_ret = []\<rparr>
     = Inr \<lparr>fd_name = ''rs_b'', fd_parameters = [(''_'', ''u8''), (''st'', ''&mut DNSState'')],
            fd_return_type = None\<rparr>
   \<and> args_loop [] (split_on CHR '','' ''_: u8, st: &mut DNSState'')
       = Inr [''uint8_t'', ''RSDNSState * st'']"
proof -
  define fn where "fn = \<lparr>fn_unsafe = [], fn_name = ''rs_b'', fn_args = ''_: u8, st: &mut DNSState'',
                  fn_arrow = [], fn_ret = []\<rparr>"
  define d where "d = \<lparr>fd_name = ''rs_b'', fd_parameters = [(''_'', ''u8''), (''st'', ''&mut DNSState'')],
            fd_return_type = None\<rparr>"
  have d: "descriptor_of fn = Inr d"
    unfolding fn_def d_def by code_simp
  have c: "convert_type ''u8'' = Inr ''uint8_t''" "convert_type ''&mut DNSState'' = Inr ''RSDNSState *''"
    by code_simp+
  have "args_loop [] (split_on CHR '','' (fn_args fn)) = Inr [''uint8_t'', ''RSDNSState * st'']"
    unfolding placeholder_parameter [OF d]
    by (simp add: d_def c less_Suc_eq)
  with d show ?thesis by (simp add: fn_def d_def)
qed

subsection \<open>Names with an upper-case letter\<close>

text \<open>
  Claim C10. The class of the name is \<^verbatim>\<open>[A_Za-z0-9_]\<close>, not \<^verbatim>\<open>[A-Za-z0-9_]\<close>: of the
  upper-case letters only A and Z are in it, and the name of every match of every
  source text is made of characters of that class. The declaration of a function named
  \<open>MyFn\<close> is not matched, so that the loop has no turn for it and no line is written
  for it, while the same declaration with the name \<open>my_fn\<close> or \<open>AZ_09\<close> is.
\<close>

theorem uppercase_name_not_matched:
  "findall ''pub extern \"C\" fn MyFn() {}'' = []
   \<and> gen_headers_lines ''pub extern \"C\" fn MyFn() {}'' = Inr []
   \<and> gen_headers ''pub extern \"C\" fn MyFn() {}'' = Inr []
   \<and> gen_headers ''pub extern \"C\" fn my_fn() {}'' = Inr (''void my_fn(void);'' @ [nl])
   \<and> gen_headers ''pub extern \"C\" fn AZ_09() {}'' = Inr (''void AZ_09(void);'' @ [nl])
   \<and> name_char c = (c \<in> {CHR ''A'', CHR ''Z'', CHR ''_''} \<union> {CHR ''a''..CHR ''z''} \<union> {CHR ''0''..CHR ''9''})
   \<and> list_all (\<lambda>m. fn_name m \<noteq> [] \<and> list_all name_char (fn_name m)) (findall buf)"
proof -
  have "findall ''pub extern \"C\" fn MyFn() {}'' = []" by code_simp
  moreover have "gen_headers_lines ''pub extern \"C\" fn MyFn() {}'' = Inr []" by code_simp
  moreover have "gen_headers ''pub extern \"C\" fn MyFn() {}'' = Inr []" by code_simp
  moreover have "gen_headers ''pub extern \"C\" fn my_fn() {}'' = Inr (''void my_fn(void);'' @ [nl])"
    by code_simp
  moreover have "gen_headers ''pub extern \"C\" fn AZ_09() {}'' = Inr (''void AZ_09(void);'' @ [nl])"
    by code_simp
  moreover have "name_char c = (c \<in> {CHR ''A'', CHR ''Z'', CHR ''_''} \<union> {CHR ''a''..CHR ''z''} \<union> {CHR ''0''..CHR ''9''})"
    by (auto simp: name_char_def)
  ultimately show ?thesis using findall_names [of buf] by blast
qed

end
